theory Spec2Isabelle
  imports Complex_Main
begin

section \<open>Values exchanged with the device\<close>

text \<open>
  The plugin talks to the switch with two HTTP POST requests whose JSON bodies axios
  parses. A parsed body is a JavaScript value. Numbers are the integer codes the device
  sends; a JSON body cannot carry NaN, so a number is falsy exactly when it is zero.
\<close>

datatype jsval =
    JUndefined
  | JNull
  | JBool bool
  | JNum int
  | JStr string
  | JArr "jsval list"
  | JObj "(string \<times> jsval) list"

text \<open>
  Why a promise is rejected: the HTTP request failed (the error of axios, kept opaque),
  a handler called \<^verbatim>\<open>Promise.reject(v)\<close>, or a property was read from
  \<^verbatim>\<open>undefined\<close> or \<^verbatim>\<open>null\<close>.
\<close>

datatype reason = NetworkError string | Rejection jsval | TypeError

text \<open>What \<^verbatim>\<open>if (v)\<close> tests.\<close>

fun truthy :: "jsval \<Rightarrow> bool" where
  "truthy JUndefined = False"
| "truthy JNull = False"
| "truthy (JBool b) = b"
| "truthy (JNum n) = (n \<noteq> 0)"
| "truthy (JStr s) = (s \<noteq> [])"
| "truthy (JArr xs) = True"
| "truthy (JObj kvs) = True"

text \<open>
  Reading a named property \<^verbatim>\<open>v.k\<close>, also through a destructuring pattern
  \<^verbatim>\<open>const {k} = v\<close>: it throws on \<^verbatim>\<open>undefined\<close> and \<^verbatim>\<open>null\<close>, looks
  the key up in an object, and gives \<^verbatim>\<open>undefined\<close> on the other values (the names
  read by the plugin, error, data and switch, are not properties of strings, numbers,
  booleans or arrays). An object is the list of its properties; should a name occur
  twice in the list, the first entry is the property.
\<close>

fun get_prop :: "jsval \<Rightarrow> string \<Rightarrow> reason + jsval" where
  "get_prop JUndefined k = Inl TypeError"
| "get_prop JNull k = Inl TypeError"
| "get_prop (JObj kvs) k = (case map_of kvs k of Some v \<Rightarrow> Inr v | None \<Rightarrow> Inr JUndefined)"
| "get_prop v k = Inr JUndefined"

text \<open>
  \<^verbatim>\<open>request(path, data)\<close> posts and resolves with the body of the response, or is
  rejected when the HTTP request fails. The outcome of one request is therefore a value
  of \<open>reason + jsval\<close>. The two requests the plugin sends:
\<close>

definition setOn :: "bool \<Rightarrow> string \<times> jsval" where
  "setOn v =
     (''/zeroconf/switch'',
      JObj [(''data'', JObj [(''switch'', JStr (if v then ''on'' else ''off''))])])"

definition getOn_request :: "string \<times> jsval" where
  "getOn_request = (''/zeroconf/info'', JObj [(''data'', JObj [])])"

text \<open>The handler that \<^verbatim>\<open>getOn\<close> chains to the request, and \<^verbatim>\<open>getOn\<close> as a whole.\<close>

definition getOn_then :: "jsval \<Rightarrow> reason + bool" where
  "getOn_then result =
     (case get_prop result ''error'' of
        Inl e \<Rightarrow> Inl e
      | Inr error \<Rightarrow>
          (case get_prop result ''data'' of
             Inl e \<Rightarrow> Inl e
           | Inr data \<Rightarrow>
               if truthy error then Inl (Rejection error)
               else (case get_prop data ''switch'' of
                       Inl e \<Rightarrow> Inl e
                     | Inr sw \<Rightarrow> Inr (sw = JStr ''on''))))"

definition getOn :: "reason + jsval \<Rightarrow> reason + bool" where
  "getOn r = (case r of Inl e \<Rightarrow> Inl e | Inr result \<Rightarrow> getOn_then result)"

section \<open>The class Queue\<close>

text \<open>
  The value of \<^verbatim>\<open>Math.ceil(1000 / frequency)\<close> for an integer frequency: dividing
  the positive 1000 by zero gives \<^verbatim>\<open>Infinity\<close>, which the ceiling keeps.
\<close>

datatype js_number = Finite int | Infinity

definition Queue_timeout :: "int \<Rightarrow> js_number" where
  "Queue_timeout frequency =
     (if frequency = 0 then Infinity else Finite \<lceil>1000 / real_of_int frequency\<rceil>)"

text \<open>
  The first four fields are the fields of the class. The others are what the runtime
  holds for a queue: the interval given to \<^verbatim>\<open>setInterval\<close>, the time in
  milliseconds, the calls of \<^verbatim>\<open>run\<close> suspended at \<^verbatim>\<open>await cb()\<close>, the due times
  of the pending \<^verbatim>\<open>setTimeout\<close> callbacks, what \<^verbatim>\<open>log.error\<close> received, and a
  journal of every start and end of a task with its time.

  A timer registered at time \<open>t\<close> with delay \<open>d\<close> runs at some time not before
  \<open>t + d\<close>; timers may run late, never early.
\<close>

datatype 'a mark = Started 'a | Ended 'a

record 'a Queue =
  requests :: "'a list"
  immediateRequests :: "'a list"
  inProgress :: bool
  wait :: nat
  tickInterval :: js_number
  clock :: nat
  awaiting :: "'a list"
  timeouts :: "nat list"
  errors :: "reason list"
  journal :: "(nat \<times> 'a mark) list"

definition Queue_new :: "int \<Rightarrow> nat \<Rightarrow> 'a Queue" where
  "Queue_new frequency w =
     \<lparr>requests = [], immediateRequests = [], inProgress = False, wait = w,
      tickInterval = Queue_timeout frequency, clock = 0, awaiting = [], timeouts = [],
      errors = [], journal = []\<rparr>"

definition immediate :: "'a \<Rightarrow> 'a Queue \<Rightarrow> 'a Queue" where
  "immediate cb q = q\<lparr>immediateRequests := immediateRequests q @ [cb]\<rparr>"

text \<open>
  \<^verbatim>\<open>run(cb)\<close> up to its await: the flag is set and \<^verbatim>\<open>cb()\<close> is called, which
  starts the task.
\<close>

definition run :: "'a \<Rightarrow> 'a Queue \<Rightarrow> 'a Queue" where
  "run cb q =
     q\<lparr>inProgress := True,
       awaiting := awaiting q @ [cb],
       journal := journal q @ [(clock q, Started cb)]\<rparr>"

text \<open>
  \<^verbatim>\<open>run\<close> from its await on, for the \<open>i\<close>-th suspended call: the promise of the
  task was fulfilled (\<open>None\<close>) or rejected (\<open>Some e\<close>, which the catch block logs);
  the finally block registers the timer that clears the flag.
\<close>

definition run_resumed :: "nat \<Rightarrow> reason option \<Rightarrow> 'a Queue \<Rightarrow> 'a Queue" where
  "run_resumed i outcome q =
     (let q1 = (case outcome of None \<Rightarrow> q | Some e \<Rightarrow> q\<lparr>errors := errors q @ [e]\<rparr>)
      in q1\<lparr>awaiting := take i (awaiting q) @ drop (Suc i) (awaiting q),
            timeouts := timeouts q @ [clock q + wait q],
            journal := journal q @ [(clock q, Ended (awaiting q ! i))]\<rparr>)"

text \<open>The \<open>i\<close>-th pending timer runs its callback, once it is due.\<close>

definition timeout_fired :: "nat \<Rightarrow> 'a Queue \<Rightarrow> 'a Queue" where
  "timeout_fired i q =
     (if i < length (timeouts q) \<and> timeouts q ! i \<le> clock q
      then q\<lparr>inProgress := False,
             timeouts := take i (timeouts q) @ drop (Suc i) (timeouts q)\<rparr>
      else q)"

definition attempt :: "'a \<Rightarrow> 'a Queue \<Rightarrow> 'a Queue" where
  "attempt cb q = (if \<not> inProgress q then run cb q else q)"

definition iteration :: "'a Queue \<Rightarrow> 'a Queue" where
  "iteration q =
     (if inProgress q then q
      else if length (immediateRequests q) > 0 then
        run (hd (immediateRequests q)) (q\<lparr>immediateRequests := tl (immediateRequests q)\<rparr>)
      else if length (requests q) > 0 then
        run (hd (requests q)) (q\<lparr>requests := tl (requests q)\<rparr>)
      else q)"

text \<open>
  The tick as the specification words it: busy, nothing; else the front of the
  Immediate lane; else the front of the Queued lane; else nothing.
\<close>

definition tick_spec :: "'a Queue \<Rightarrow> 'a Queue" where
  "tick_spec q =
     (if inProgress q then q
      else (case immediateRequests q of
              t # rest \<Rightarrow> run t (q\<lparr>immediateRequests := rest\<rparr>)
            | [] \<Rightarrow>
                (case requests q of
                   t # rest \<Rightarrow> run t (q\<lparr>requests := rest\<rparr>)
                 | [] \<Rightarrow> q)))"

section \<open>The class SwitchAccessory\<close>

text \<open>
  The two closures the accessory hands to its queue: the one of
  \<^verbatim>\<open>setOnCharacteristicHandler\<close>, which captures the boolean HomeKit asks for and
  the callback of HomeKit (named by a number), and the one of \<^verbatim>\<open>loadState\<close>.
  A callback of HomeKit returns without throwing.
\<close>

datatype task = SetOn bool nat | LoadState

text \<open>
  \<open>state\<close> is the cached switch state, \<^verbatim>\<open>undefined\<close> (\<open>None\<close>) until first
  assigned. \<open>callbacks\<close> lists the calls of set callbacks with their argument
  (\<open>None\<close> is \<^verbatim>\<open>null\<close>), \<open>updates\<close> the calls of
  \<^verbatim>\<open>onCharacteristic.updateValue\<close>.
\<close>

record SwitchAccessory =
  queue :: "task Queue"
  state :: "bool option"
  callbacks :: "(nat \<times> reason option) list"
  updates :: "bool list"

definition accessory_with :: "int \<Rightarrow> nat \<Rightarrow> SwitchAccessory" where
  "accessory_with frequency w =
     \<lparr>queue = Queue_new frequency w, state = None, callbacks = [], updates = []\<rparr>"

definition SwitchAccessory_new :: SwitchAccessory where
  "SwitchAccessory_new = accessory_with 2 100"

text \<open>The request a task sends when it is started.\<close>

fun request_of :: "task \<Rightarrow> string \<times> jsval" where
  "request_of (SetOn v callback) = setOn v"
| "request_of LoadState = getOn_request"

definition device_calls :: "SwitchAccessory \<Rightarrow> (nat \<times> string \<times> jsval) list" where
  "device_calls a =
     concat (map (\<lambda>(t, m). case m of Started cb \<Rightarrow> [(t, request_of cb)] | Ended cb \<Rightarrow> [])
       (journal (queue a)))"

definition setOnCharacteristicHandler :: "bool \<Rightarrow> nat \<Rightarrow> SwitchAccessory \<Rightarrow> SwitchAccessory" where
  "setOnCharacteristicHandler v callback a =
     a\<lparr>queue := immediate (SetOn v callback) (queue a)\<rparr>"

definition getOnCharacteristicHandler :: "SwitchAccessory \<Rightarrow> bool option" where
  "getOnCharacteristicHandler a = state a"

definition loadState :: "SwitchAccessory \<Rightarrow> SwitchAccessory" where
  "loadState a = a\<lparr>queue := attempt LoadState (queue a)\<rparr>"

text \<open>
  What a task does once its request has completed with outcome \<open>r\<close>, and how the
  promise that \<^verbatim>\<open>cb()\<close> returned settles. The set closure ends in
  \<^verbatim>\<open>.catch(callback)\<close>, so its promise is always fulfilled.
\<close>

fun settled :: "task \<Rightarrow> reason + jsval \<Rightarrow> SwitchAccessory \<Rightarrow> SwitchAccessory \<times> reason option" where
  "settled (SetOn v callback) r a =
     (case r of
        Inr body \<Rightarrow> (a\<lparr>state := Some v, callbacks := callbacks a @ [(callback, None)]\<rparr>, None)
      | Inl e \<Rightarrow> (a\<lparr>callbacks := callbacks a @ [(callback, Some e)]\<rparr>, None))"
| "settled LoadState r a =
     (case getOn r of
        Inl e \<Rightarrow> (a, Some e)
      | Inr newState \<Rightarrow>
          (if state a \<noteq> Some newState
           then a\<lparr>state := Some newState, updates := updates a @ [newState]\<rparr>
           else a,
           None))"

section \<open>The event loop\<close>

text \<open>
  Everything that can happen to an accessory: HomeKit sets or reads the switch, the
  polling timer or the tick timer of the queue fires, the request of the \<open>i\<close>-th
  running task completes with an outcome, the \<open>i\<close>-th pending cooldown timer fires, or
  time passes. An event that cannot happen in a state (no such task, timer not due)
  leaves it as it is.
\<close>

datatype event =
    HomeKitSet bool nat
  | HomeKitGet
  | PollTimer
  | TickTimer
  | HttpDone nat "reason + jsval"
  | CooldownTimer nat
  | Elapse nat

fun step :: "event \<Rightarrow> SwitchAccessory \<Rightarrow> SwitchAccessory" where
  "step (HomeKitSet v callback) a = setOnCharacteristicHandler v callback a"
| "step HomeKitGet a = a"
| "step PollTimer a = loadState a"
| "step TickTimer a = a\<lparr>queue := iteration (queue a)\<rparr>"
| "step (HttpDone i r) a =
     (if i < length (awaiting (queue a)) then
        (case settled (awaiting (queue a) ! i) r a of
           (a', outcome) \<Rightarrow> a'\<lparr>queue := run_resumed i outcome (queue a')\<rparr>)
      else a)"
| "step (CooldownTimer i) a = a\<lparr>queue := timeout_fired i (queue a)\<rparr>"
| "step (Elapse d) a = a\<lparr>queue := (queue a)\<lparr>clock := clock (queue a) + d\<rparr>\<rparr>"

fun exec :: "event list \<Rightarrow> SwitchAccessory \<Rightarrow> SwitchAccessory" where
  "exec [] a = a"
| "exec (e # es) a = exec es (step e a)"

text \<open>
  A poll cycle as the runtime plays it when the device answers after 40 ms: the polling
  timer fires, the answer arrives, the cooldown passes and its timer fires, and the rest
  of the 5000 ms polling interval goes by. \<open>info sw\<close> is the answer of a healthy
  device whose switch is \<open>sw\<close>.
\<close>

definition info :: "string \<Rightarrow> jsval" where
  "info sw = JObj [(''error'', JNum 0), (''data'', JObj [(''switch'', JStr sw)])]"

definition poll_cycle :: "reason + jsval \<Rightarrow> event list" where
  "poll_cycle r = [PollTimer, Elapse 40, HttpDone 0 r, Elapse 100, CooldownTimer 0, Elapse 4860]"

section \<open>Invariants of the queue\<close>

text \<open>
  \<open>spaced w J\<close>: in the journal \<open>J\<close>, every start of a task comes at least \<open>w\<close>
  after every end of a task recorded before it.
\<close>

definition spaced :: "nat \<Rightarrow> (nat \<times> 'a mark) list \<Rightarrow> bool" where
  "spaced w J \<longleftrightarrow>
     (\<forall>i j e c t d. i < j \<and> j < length J \<and> J ! i = (e, Ended c) \<and> J ! j = (t, Started d)
        \<longrightarrow> e + w \<le> t)"

text \<open>
  What every operation of the queue preserves: the cooldown is the one given at
  construction, the Queued lane is empty, the flag is set exactly while one call of
  \<^verbatim>\<open>run\<close> is suspended or one cooldown timer is pending (never both, never two),
  no task ended in the future, a pending timer is due no earlier than \<open>w\<close> after every
  end, with no timer pending every end lies at least \<open>w\<close> back, and the journal is
  spaced.
\<close>

definition qinv :: "nat \<Rightarrow> 'a Queue \<Rightarrow> bool" where
  "qinv w q \<longleftrightarrow>
     wait q = w \<and> requests q = []
     \<and> length (awaiting q) + length (timeouts q) = (if inProgress q then 1 else 0)
     \<and> (\<forall>e c. (e, Ended c) \<in> set (journal q) \<longrightarrow>
           e \<le> clock q
           \<and> (timeouts q = [] \<longrightarrow> e + w \<le> clock q)
           \<and> (\<forall>d \<in> set (timeouts q). e + w \<le> d))
     \<and> spaced w (journal q)"

section \<open>The invariant is preserved\<close>

lemma spaced_Nil: "spaced w []"
  by (simp add: spaced_def)

lemma spacedD:
  "spaced w J \<Longrightarrow> i < j \<Longrightarrow> j < length J \<Longrightarrow> J ! i = (e, Ended c) \<Longrightarrow> J ! j = (t, Started d)
     \<Longrightarrow> e + w \<le> t"
  unfolding spaced_def by blast

lemma spaced_snoc_Ended:
  assumes "spaced w J"
  shows "spaced w (J @ [(t, Ended c)])"
  unfolding spaced_def
proof (intro allI impI)
  fix i j e c' t' d'
  assume h: "i < j \<and> j < length (J @ [(t, Ended c)])
     \<and> (J @ [(t, Ended c)]) ! i = (e, Ended c') \<and> (J @ [(t, Ended c)]) ! j = (t', Started d')"
  then have j: "j < length J"
    by (cases "j = length J") auto
  with h have i: "i < length J" by simp
  from h i j have "J ! i = (e, Ended c')" "J ! j = (t', Started d')" "i < j"
    by (simp_all add: nth_append)
  with j show "e + w \<le> t'"
    by (rule_tac spacedD [OF assms, of i j e c' t' d'])
qed

lemma spaced_snoc_Started:
  assumes "spaced w J" and "\<And>e c. (e, Ended c) \<in> set J \<Longrightarrow> e + w \<le> t"
  shows "spaced w (J @ [(t, Started d)])"
  unfolding spaced_def
proof (intro allI impI)
  fix i j e c t' d'
  assume h: "i < j \<and> j < length (J @ [(t, Started d)])
     \<and> (J @ [(t, Started d)]) ! i = (e, Ended c) \<and> (J @ [(t, Started d)]) ! j = (t', Started d')"
  show "e + w \<le> t'"
  proof (cases "j < length J")
    case True
    with h have i: "i < length J" by simp
    from h i True have "J ! i = (e, Ended c)" "J ! j = (t', Started d')" "i < j"
      by (simp_all add: nth_append)
    with True show ?thesis
      by (rule_tac spacedD [OF assms(1), of i j e c t' d'])
  next
    case False
    with h have j: "j = length J" and i: "i < length J" by auto
    from h i have "J ! i = (e, Ended c)" by (simp add: nth_append)
    with i have "(e, Ended c) \<in> set J" by (metis nth_mem)
    moreover from h j have "t' = t" by simp
    ultimately show ?thesis using assms(2) by simp
  qed
qed

lemma only_one: "m + n = (1::nat) \<Longrightarrow> i < n \<Longrightarrow> m = 0 \<and> n = 1 \<and> i = 0"
  by arith

lemma qinv_new: "qinv w (Queue_new f w)"
  by (simp add: qinv_def Queue_new_def spaced_Nil)

lemma qinv_immediate: "qinv w q \<Longrightarrow> qinv w (immediate cb q)"
  by (simp add: qinv_def immediate_def)

lemma qinv_elapse: "qinv w q \<Longrightarrow> qinv w (q\<lparr>clock := clock q + d\<rparr>)"
  unfolding qinv_def by (auto intro: trans_le_add1)

lemma qinv_run:
  assumes "qinv w q" and "\<not> inProgress q"
  shows "qinv w (run cb q)"
proof -
  from assms have e: "awaiting q = []" "timeouts q = []"
    by (auto simp: qinv_def)
  from assms have ends: "\<And>e c. (e, Ended c) \<in> set (journal q) \<Longrightarrow> e + w \<le> clock q"
    using e by (auto simp: qinv_def)
  have "spaced w (journal q @ [(clock q, Started cb)])"
    using assms(1) ends by (intro spaced_snoc_Started) (auto simp: qinv_def)
  with assms e ends show ?thesis
    by (auto simp: qinv_def run_def)
qed

lemma qinv_lane:
  "qinv w q \<Longrightarrow> qinv w (q\<lparr>immediateRequests := xs\<rparr>)"
  by (simp add: qinv_def)

lemma qinv_attempt: "qinv w q \<Longrightarrow> qinv w (attempt cb q)"
  by (simp add: attempt_def qinv_run)

lemma qinv_iteration: "qinv w q \<Longrightarrow> qinv w (iteration q)"
proof -
  assume h: "qinv w q"
  then have r: "requests q = []" by (simp add: qinv_def)
  show ?thesis
  proof (cases "inProgress q \<or> immediateRequests q = []")
    case True
    with r show ?thesis using h by (auto simp: iteration_def)
  next
    case False
    then have "iteration q =
        run (hd (immediateRequests q)) (q\<lparr>immediateRequests := tl (immediateRequests q)\<rparr>)"
      by (simp add: iteration_def)
    moreover have "qinv w (run (hd (immediateRequests q)) (q\<lparr>immediateRequests := tl (immediateRequests q)\<rparr>))"
      using h False by (intro qinv_run qinv_lane) auto
    ultimately show ?thesis by simp
  qed
qed

lemma qinv_run_resumed:
  assumes "qinv w q" and "i < length (awaiting q)"
  shows "qinv w (run_resumed i outcome q)"
proof -
  from assms(1) have n: "length (awaiting q) + length (timeouts q) = (if inProgress q then 1 else 0)"
    by (simp add: qinv_def)
  with assms(2) have p: "inProgress q" by (cases "inProgress q") auto
  with n assms(2) have "length (awaiting q) = 1 \<and> length (timeouts q) = 0 \<and> i = 0"
    using only_one [of "length (timeouts q)" "length (awaiting q)" i] by simp
  with p have a: "length (awaiting q) = 1" "timeouts q = []" "inProgress q" "i = 0" by auto
  then have t: "take i (awaiting q) @ drop (Suc i) (awaiting q) = []" by simp
  have sp: "spaced w (journal q @ [(clock q, Ended (awaiting q ! i))])"
    using assms(1) by (intro spaced_snoc_Ended) (simp add: qinv_def)
  have ends: "\<And>e c. (e, Ended c) \<in> set (journal q) \<Longrightarrow> e \<le> clock q"
    using assms(1) by (auto simp: qinv_def)
  have w: "wait q = w" "requests q = []" using assms(1) by (auto simp: qinv_def)
  show ?thesis
    unfolding qinv_def run_resumed_def Let_def
    using a t sp w by (cases outcome) (auto dest: ends)
qed

lemma qinv_timeout_fired: "qinv w q \<Longrightarrow> qinv w (timeout_fired i q)"
proof -
  assume h: "qinv w q"
  show ?thesis
  proof (cases "i < length (timeouts q) \<and> timeouts q ! i \<le> clock q")
    case False
    then show ?thesis using h by (auto simp: timeout_fired_def)
  next
    case True
    from h have n: "length (awaiting q) + length (timeouts q) = (if inProgress q then 1 else 0)"
      by (simp add: qinv_def)
    with True have p: "inProgress q" by (cases "inProgress q") auto
    with n True have "length (awaiting q) = 0 \<and> length (timeouts q) = 1 \<and> i = 0"
      using only_one [of "length (awaiting q)" "length (timeouts q)" i] by simp
    with p have a: "awaiting q = []" "length (timeouts q) = 1" "inProgress q" "i = 0" by auto
    then obtain d where d: "timeouts q = [d]" by (cases "timeouts q") auto
    with True a have dc: "d \<le> clock q" by simp
    have "\<And>e c. (e, Ended c) \<in> set (journal q) \<Longrightarrow> e + w \<le> clock q"
      using h d dc unfolding qinv_def by fastforce
    with h a d True show ?thesis
      unfolding qinv_def timeout_fired_def by auto
  qed
qed

lemma queue_settled: "queue (fst (settled t r a)) = queue a"
  by (cases t) (auto split: sum.splits)

lemma qinv_step: "qinv w (queue a) \<Longrightarrow> qinv w (queue (step e a))"
proof (cases e)
  case (HttpDone i r)
  assume h: "qinv w (queue a)"
  show ?thesis
  proof (cases "i < length (awaiting (queue a))")
    case False
    with HttpDone h show ?thesis by simp
  next
    case True
    obtain a' outcome where s: "settled (awaiting (queue a) ! i) r a = (a', outcome)"
      by (cases "settled (awaiting (queue a) ! i) r a")
    then have "queue a' = queue a" using queue_settled [of "awaiting (queue a) ! i" r a] by simp
    with HttpDone True s h show ?thesis by (simp add: qinv_run_resumed)
  qed
qed (simp_all add: setOnCharacteristicHandler_def loadState_def qinv_immediate qinv_attempt
       qinv_iteration qinv_timeout_fired qinv_elapse)

lemma qinv_exec: "qinv w (queue a) \<Longrightarrow> qinv w (queue (exec es a))"
  by (induction es arbitrary: a) (simp_all add: qinv_step)

lemma qinv_reachable: "qinv w (queue (exec es (accessory_with f w)))"
  by (rule qinv_exec) (simp add: accessory_with_def qinv_new)

section \<open>Mutual exclusion\<close>

lemma exec_append: "exec (xs @ ys) a = exec ys (exec xs a)"
  by (induction xs arbitrary: a) simp_all

lemma iteration_busy: "inProgress q \<Longrightarrow> iteration q = q"
  by (simp add: iteration_def)

lemma attempt_busy: "inProgress q \<Longrightarrow> attempt cb q = q"
  by (simp add: attempt_def)

lemma awaiting_step_busy:
  "inProgress (queue a) \<Longrightarrow> set (awaiting (queue (step ev a))) \<subseteq> set (awaiting (queue a))"
proof (cases ev)
  case (HttpDone i r)
  assume "inProgress (queue a)"
  show ?thesis
  proof (cases "i < length (awaiting (queue a))")
    case False
    with HttpDone show ?thesis by simp
  next
    case True
    obtain a' outcome where s: "settled (awaiting (queue a) ! i) r a = (a', outcome)"
      by (cases "settled (awaiting (queue a) ! i) r a")
    then have "queue a' = queue a" using queue_settled [of "awaiting (queue a) ! i" r a] by simp
    with HttpDone True s show ?thesis
      by (cases outcome) (auto simp: run_resumed_def dest: in_set_takeD in_set_dropD)
  qed
qed (simp_all add: setOnCharacteristicHandler_def loadState_def immediate_def attempt_def
       iteration_def timeout_fired_def)

text \<open>
  Claim C1. While the flag \<open>inProgress\<close> is set no task starts: a tick returns the
  queue as it is, and so does \<open>attempt\<close>, whatever the task; no event at all adds a
  task to the running ones. Hence in every state the accessory reaches, from
  construction and through any sequence of events, at most one task is running, and
  whenever one is running the flag is set.
\<close>

theorem busy_blocks_every_start:
  "(inProgress q \<longrightarrow> iteration q = q \<and> attempt cb q = q)
   \<and> (inProgress (queue a) \<longrightarrow>
        set (awaiting (queue (step ev a))) \<subseteq> set (awaiting (queue a)))
   \<and> length (awaiting (queue (exec es (accessory_with f w)))) \<le> 1
   \<and> (awaiting (queue (exec es (accessory_with f w))) \<noteq> []
        \<longrightarrow> inProgress (queue (exec es (accessory_with f w))))"
proof -
  have "qinv w (queue (exec es (accessory_with f w)))"
    by (rule qinv_reachable)
  then have n: "length (awaiting (queue (exec es (accessory_with f w))))
      + length (timeouts (queue (exec es (accessory_with f w))))
      = (if inProgress (queue (exec es (accessory_with f w))) then 1 else 0)"
    by (simp add: qinv_def)
  have 1: "length (awaiting (queue (exec es (accessory_with f w)))) \<le> 1"
    using n by (simp split: if_splits)
  have 2: "awaiting (queue (exec es (accessory_with f w))) \<noteq> []
        \<longrightarrow> inProgress (queue (exec es (accessory_with f w)))"
    using n by (auto split: if_splits)
  show ?thesis
    using 1 2 by (simp add: iteration_busy attempt_busy awaiting_step_busy)
qed

theorem busy_blocks_every_start_witness:
  "inProgress (run LoadState (Queue_new 2 100))
   \<and> iteration (run LoadState (Queue_new 2 100)) = run LoadState (Queue_new 2 100)
   \<and> attempt (SetOn False 3) (run LoadState (Queue_new 2 100)) = run LoadState (Queue_new 2 100)
   \<and> inProgress (queue (exec [PollTimer] (accessory_with 2 100)))
   \<and> awaiting (queue (step TickTimer (exec [HomeKitSet True 1, PollTimer] (accessory_with 2 100))))
       = [LoadState]
   \<and> awaiting (queue (exec [HomeKitSet True 1, TickTimer, PollTimer, TickTimer] (accessory_with 2 100)))
       = [SetOn True 1]
   \<and> inProgress (queue (exec [HomeKitSet True 1, TickTimer, PollTimer, TickTimer] (accessory_with 2 100)))"
  using busy_blocks_every_start [of "run LoadState (Queue_new 2 100)" "SetOn False 3"
      "exec [HomeKitSet True 1, PollTimer] (accessory_with 2 100)" TickTimer
      "[HomeKitSet True 1, TickTimer, PollTimer, TickTimer]" 2 100]
  by (simp add: accessory_with_def Queue_new_def run_def iteration_def attempt_def
      setOnCharacteristicHandler_def loadState_def immediate_def)

section \<open>Reading the switch\<close>

lemma get_prop_Inl: "get_prop v k = Inl e \<longleftrightarrow> (v = JUndefined \<or> v = JNull) \<and> e = TypeError"
  by (cases v) (auto split: option.splits)

text \<open>
  Claim C8 as stated fails: the device reports success with the error code 0, which is
  not null, and \<open>getOn\<close> succeeds on such a response.
\<close>

theorem getOn_error_zero_counterexample:
  "get_prop (JObj [(''error'', JNum 0), (''data'', JObj [(''switch'', JStr ''on'')])]) ''error''
     = Inr (JNum 0)
   \<and> JNum 0 \<noteq> JNull \<and> JNum 0 \<noteq> JUndefined
   \<and> getOn (Inr (JObj [(''error'', JNum 0), (''data'', JObj [(''switch'', JStr ''on'')])]))
     = Inr True"
  by (simp add: getOn_def getOn_then_def)

text \<open>
  Claim C8, amended. \<open>getOn\<close> fails with the error of the request when the HTTP
  request fails, and is rejected with the value of the field \<open>error\<close> when that value
  is truthy. When \<open>error\<close> is falsy (absent, null, 0, false or the empty string) and
  the response has a \<open>data\<close> value other than null and undefined, it succeeds and
  returns true exactly when \<open>data.switch\<close> is the string on. It fails in these cases
  and when a property is read from null or undefined, and in no other.
\<close>

theorem getOn_fails_on_truthy_error:
  "getOn (Inl e) = Inl e
   \<and> (get_prop result ''error'' = Inr err \<and> truthy err
        \<longrightarrow> getOn (Inr result) = Inl (Rejection err))
   \<and> (get_prop result ''error'' = Inr err \<and> \<not> truthy err
        \<and> get_prop result ''data'' = Inr d \<and> d \<noteq> JNull \<and> d \<noteq> JUndefined
        \<longrightarrow> (\<exists>sw. get_prop d ''switch'' = Inr sw
              \<and> getOn (Inr result) = Inr (sw = JStr ''on'')))
   \<and> ((\<exists>x. getOn r = Inl x) \<longleftrightarrow>
        (\<exists>x. r = Inl x)
        \<or> (\<exists>res. r = Inr res \<and>
              (res = JNull \<or> res = JUndefined
               \<or> (\<exists>v. get_prop res ''error'' = Inr v \<and> truthy v)
               \<or> get_prop res ''data'' = Inr JNull
               \<or> get_prop res ''data'' = Inr JUndefined)))"
proof (intro conjI impI)
  show "getOn (Inl e) = Inl e" by (simp add: getOn_def)
next
  assume "get_prop result ''error'' = Inr err \<and> truthy err"
  then show "getOn (Inr result) = Inl (Rejection err)"
    by (cases result) (auto simp: getOn_def getOn_then_def split: option.splits)
next
  assume h: "get_prop result ''error'' = Inr err \<and> \<not> truthy err
        \<and> get_prop result ''data'' = Inr d \<and> d \<noteq> JNull \<and> d \<noteq> JUndefined"
  then obtain sw where sw: "get_prop d ''switch'' = Inr sw"
    by (cases "get_prop d ''switch''") (auto simp: get_prop_Inl)
  with h show "\<exists>sw. get_prop d ''switch'' = Inr sw
              \<and> getOn (Inr result) = Inr (sw = JStr ''on'')"
    by (simp add: getOn_def getOn_then_def)
next
  show "(\<exists>x. getOn r = Inl x) \<longleftrightarrow>
        (\<exists>x. r = Inl x)
        \<or> (\<exists>res. r = Inr res \<and>
              (res = JNull \<or> res = JUndefined
               \<or> (\<exists>v. get_prop res ''error'' = Inr v \<and> truthy v)
               \<or> get_prop res ''data'' = Inr JNull
               \<or> get_prop res ''data'' = Inr JUndefined))"
  proof (cases r)
    case (Inl x)
    then show ?thesis by (simp add: getOn_def)
  next
    case (Inr res)
    show ?thesis
    proof (cases "res = JNull \<or> res = JUndefined")
      case True
      with Inr show ?thesis by (auto simp: getOn_def getOn_then_def)
    next
      case False
      then obtain v d where v: "get_prop res ''error'' = Inr v" and d: "get_prop res ''data'' = Inr d"
        by (cases "get_prop res ''error''"; cases "get_prop res ''data''") (auto simp: get_prop_Inl)
      show ?thesis
      proof (cases "d = JNull \<or> d = JUndefined")
        case True
        with Inr v d show ?thesis by (auto simp: getOn_def getOn_then_def)
      next
        case dn: False
        then obtain sw where "get_prop d ''switch'' = Inr sw"
          by (cases "get_prop d ''switch''") (auto simp: get_prop_Inl)
        with Inr v d dn False show ?thesis by (auto simp: getOn_def getOn_then_def)
      qed
    qed
  qed
qed

theorem getOn_fails_on_truthy_error_witness:
  "getOn (Inr (JObj [(''error'', JNum 400)])) = Inl (Rejection (JNum 400))
   \<and> getOn (Inr (JObj [(''error'', JNull), (''data'', JObj [(''switch'', JStr ''off'')])])) = Inr False
   \<and> getOn (Inr (JObj [(''data'', JObj [(''switch'', JStr ''on'')])])) = Inr True"
  using getOn_fails_on_truthy_error [of undefined "JObj [(''error'', JNum 400)]" "JNum 400"]
    getOn_fails_on_truthy_error [of undefined "JObj [(''error'', JNull), (''data'', JObj [(''switch'', JStr ''off'')])]" JNull "JObj [(''switch'', JStr ''off'')]"]
    getOn_fails_on_truthy_error [of undefined "JObj [(''data'', JObj [(''switch'', JStr ''on'')])]" JUndefined "JObj [(''switch'', JStr ''on'')]"]
  by simp

section \<open>The cached state\<close>

lemma state_step_other:
  assumes "\<And>i r. ev \<noteq> HttpDone i r"
  shows "state (step ev a) = state a"
proof (cases ev)
  case (HttpDone i r)
  with assms show ?thesis by blast
qed (simp_all add: setOnCharacteristicHandler_def loadState_def)

lemma step_set_ok:
  "i < length (awaiting (queue a)) \<Longrightarrow> awaiting (queue a) ! i = SetOn v c \<Longrightarrow>
   step (HttpDone i (Inr body)) a =
     a\<lparr>state := Some v, callbacks := callbacks a @ [(c, None)],
       queue := run_resumed i None (queue a)\<rparr>"
  by simp

lemma step_set_failed:
  "i < length (awaiting (queue a)) \<Longrightarrow> awaiting (queue a) ! i = SetOn v c \<Longrightarrow>
   step (HttpDone i (Inl e)) a =
     a\<lparr>callbacks := callbacks a @ [(c, Some e)], queue := run_resumed i None (queue a)\<rparr>"
  by simp

lemma step_poll_failed:
  "i < length (awaiting (queue a)) \<Longrightarrow> awaiting (queue a) ! i = LoadState \<Longrightarrow>
   getOn r = Inl e \<Longrightarrow>
   step (HttpDone i r) a = a\<lparr>queue := run_resumed i (Some e) (queue a)\<rparr>"
  by simp

lemma step_poll_same:
  "i < length (awaiting (queue a)) \<Longrightarrow> awaiting (queue a) ! i = LoadState \<Longrightarrow>
   getOn r = Inr b \<Longrightarrow> state a = Some b \<Longrightarrow>
   step (HttpDone i r) a = a\<lparr>queue := run_resumed i None (queue a)\<rparr>"
  by simp

lemma step_poll_changed:
  "i < length (awaiting (queue a)) \<Longrightarrow> awaiting (queue a) ! i = LoadState \<Longrightarrow>
   getOn r = Inr b \<Longrightarrow> state a \<noteq> Some b \<Longrightarrow>
   step (HttpDone i r) a =
     a\<lparr>state := Some b, updates := updates a @ [b], queue := run_resumed i None (queue a)\<rparr>"
  by simp

text \<open>
  Claim C2. An event changes the cached state only when it is the completion of a
  running task that succeeded: a set task whose request resolved, and then the cache
  holds the requested value, or a poll task whose \<open>getOn\<close> succeeded, and then the
  cache holds the value \<open>getOn\<close> returned. When the request of a set task fails, the
  cache is as before and the set callback is called with that error; when \<open>getOn\<close>
  fails in a poll task, the cache is as before, and no callback and no notification
  is raised.
\<close>

theorem cache_assigned_only_on_success:
  "(state (step ev a) \<noteq> state a \<longrightarrow>
      (\<exists>i r. ev = HttpDone i r \<and> i < length (awaiting (queue a)) \<and>
         (case awaiting (queue a) ! i of
            SetOn v c \<Rightarrow> (\<exists>body. r = Inr body) \<and> state (step ev a) = Some v
          | LoadState \<Rightarrow> (\<exists>b. getOn r = Inr b \<and> state (step ev a) = Some b))))
   \<and> (i < length (awaiting (queue a)) \<and> awaiting (queue a) ! i = SetOn v c \<longrightarrow>
        state (step (HttpDone i (Inl e)) a) = state a
        \<and> callbacks (step (HttpDone i (Inl e)) a) = callbacks a @ [(c, Some e)])
   \<and> (i < length (awaiting (queue a)) \<and> awaiting (queue a) ! i = LoadState \<and> getOn r = Inl e \<longrightarrow>
        state (step (HttpDone i r) a) = state a
        \<and> updates (step (HttpDone i r) a) = updates a
        \<and> callbacks (step (HttpDone i r) a) = callbacks a)"
proof (intro conjI impI)
  assume changed: "state (step ev a) \<noteq> state a"
  then obtain j r' where ev: "ev = HttpDone j r'"
    using state_step_other [of ev a] by blast
  with changed have j: "j < length (awaiting (queue a))"
    by (cases "j < length (awaiting (queue a))") auto
  show "\<exists>i r. ev = HttpDone i r \<and> i < length (awaiting (queue a)) \<and>
         (case awaiting (queue a) ! i of
            SetOn v c \<Rightarrow> (\<exists>body. r = Inr body) \<and> state (step ev a) = Some v
          | LoadState \<Rightarrow> (\<exists>b. getOn r = Inr b \<and> state (step ev a) = Some b))"
  proof (cases "awaiting (queue a) ! j")
    case (SetOn v' c')
    with changed ev j have "(\<exists>body. r' = Inr body) \<and> state (step ev a) = Some v'"
      by (cases r') auto
    with ev j SetOn show ?thesis by auto
  next
    case LoadState
    with changed ev j have "\<exists>b. getOn r' = Inr b \<and> state (step ev a) = Some b"
      by (cases "getOn r'") (auto split: if_splits)
    with ev j LoadState show ?thesis by auto
  qed
qed (simp_all add: step_set_failed step_poll_failed del: step.simps)

theorem cache_assigned_only_on_success_witness:
  "awaiting (queue (exec [HomeKitSet True 1, TickTimer] SwitchAccessory_new)) ! 0 = SetOn True 1
   \<and> state (exec [HomeKitSet True 1, TickTimer, HttpDone 0 (Inl (NetworkError ''ECONNREFUSED''))]
        SwitchAccessory_new) = None
   \<and> callbacks (exec [HomeKitSet True 1, TickTimer, HttpDone 0 (Inl (NetworkError ''ECONNREFUSED''))]
        SwitchAccessory_new) = [(1, Some (NetworkError ''ECONNREFUSED''))]
   \<and> state (exec [HomeKitSet True 1, TickTimer, HttpDone 0 (Inr JNull)] SwitchAccessory_new)
       = Some True
   \<and> getOn (Inr (JObj [(''error'', JNum 404)])) = Inl (Rejection (JNum 404))
   \<and> state (step (HttpDone 0 (Inr (JObj [(''error'', JNum 404)])))
        (exec [PollTimer] SwitchAccessory_new)) = None"
  using cache_assigned_only_on_success [of "HttpDone 0 (Inr JNull)"
      "exec [HomeKitSet True 1, TickTimer] SwitchAccessory_new" 0 True 1
      "NetworkError ''ECONNREFUSED''"]
    cache_assigned_only_on_success [of "HttpDone 0 (Inr JNull)"
      "exec [PollTimer] SwitchAccessory_new" 0 True 1
      "Rejection (JNum 404)" "Inr (JObj [(''error'', JNum 404)])"]
  by (simp add: SwitchAccessory_new_def accessory_with_def Queue_new_def run_def iteration_def
      attempt_def setOnCharacteristicHandler_def loadState_def immediate_def run_resumed_def
      getOn_def getOn_then_def)

section \<open>The tick\<close>

lemma iteration_tick_spec: "iteration q = tick_spec q"
  by (cases "immediateRequests q"; cases "requests q") (simp_all add: iteration_def tick_spec_def)

text \<open>
  Claim C4. \<open>iteration\<close> is the tick of the specification: nothing when busy, else
  the front of the Immediate lane is removed and run, else the front of the Queued lane
  is removed and run, else nothing. In particular, when the queue is not busy and both
  lanes are non-empty, the task started is the front of the Immediate lane, and the
  Queued lane is untouched.
\<close>

theorem iteration_follows_tick_rule:
  "iteration q = tick_spec q
   \<and> (\<not> inProgress q \<and> immediateRequests q = t # ts \<and> requests q = u # us \<longrightarrow>
        awaiting (iteration q) = awaiting q @ [t]
        \<and> journal (iteration q) = journal q @ [(clock q, Started t)]
        \<and> immediateRequests (iteration q) = ts
        \<and> requests (iteration q) = u # us)"
proof (intro conjI impI)
  show "iteration q = tick_spec q" by (rule iteration_tick_spec)
qed (simp_all add: iteration_def run_def)

theorem iteration_follows_tick_rule_witness:
  "awaiting (iteration ((Queue_new 2 100)\<lparr>immediateRequests := [SetOn True 1, SetOn False 2],
        requests := [LoadState]\<rparr>)) = [SetOn True 1]
   \<and> immediateRequests (iteration ((Queue_new 2 100)\<lparr>immediateRequests := [SetOn True 1, SetOn False 2],
        requests := [LoadState]\<rparr>)) = [SetOn False 2]
   \<and> requests (iteration ((Queue_new 2 100)\<lparr>immediateRequests := [SetOn True 1, SetOn False 2],
        requests := [LoadState]\<rparr>)) = [LoadState]
   \<and> awaiting (iteration ((Queue_new 2 100)\<lparr>requests := [LoadState]\<rparr>)) = [LoadState]"
  using iteration_follows_tick_rule [of "(Queue_new 2 100)\<lparr>immediateRequests := [SetOn True 1, SetOn False 2],
        requests := [LoadState]\<rparr>" "SetOn True 1" "[SetOn False 2]" LoadState "[]"]
  by (simp add: Queue_new_def iteration_def tick_spec_def run_def)

section \<open>Attempts\<close>

lemma device_calls_run:
  "device_calls (a\<lparr>queue := run cb (queue a)\<rparr>) = device_calls a @ [(clock (queue a), request_of cb)]"
  by (simp add: device_calls_def run_def)

text \<open>
  Claim C6. When the queue is busy, \<open>attempt\<close> returns it unchanged whatever the
  task: nothing is started, no lane changes. For the accessory, a firing of the polling
  timer while busy leaves the whole state as it was, so no request is sent, the cache is
  unchanged, and every later run of events proceeds as if the timer had not fired. When
  the queue is not busy, \<open>attempt\<close> is \<open>run\<close>: the task is started at once, at the
  current time, with both lanes unchanged, and the poll sends its request.
\<close>

theorem attempt_runs_or_drops:
  "(inProgress q \<longrightarrow> attempt cb q = q)
   \<and> (\<not> inProgress q \<longrightarrow>
        attempt cb q = run cb q
        \<and> awaiting (attempt cb q) = awaiting q @ [cb]
        \<and> journal (attempt cb q) = journal q @ [(clock q, Started cb)]
        \<and> requests (attempt cb q) = requests q
        \<and> immediateRequests (attempt cb q) = immediateRequests q)
   \<and> (inProgress (queue a) \<longrightarrow>
        step PollTimer a = a
        \<and> device_calls (step PollTimer a) = device_calls a
        \<and> state (step PollTimer a) = state a
        \<and> exec es (step PollTimer a) = exec es a)
   \<and> (\<not> inProgress (queue a) \<longrightarrow>
        device_calls (step PollTimer a) = device_calls a @ [(clock (queue a), getOn_request)])"
  by (simp add: attempt_def loadState_def device_calls_run) (simp add: run_def)

theorem attempt_runs_or_drops_witness:
  "inProgress (queue (exec [HomeKitSet True 1, TickTimer] SwitchAccessory_new))
   \<and> exec [HomeKitSet True 1, TickTimer, PollTimer] SwitchAccessory_new
       = exec [HomeKitSet True 1, TickTimer] SwitchAccessory_new
   \<and> device_calls (exec [HomeKitSet True 1, TickTimer, PollTimer] SwitchAccessory_new)
       = [(0, setOn True)]
   \<and> \<not> inProgress (queue SwitchAccessory_new)
   \<and> device_calls (exec [PollTimer] SwitchAccessory_new) = [(0, getOn_request)]
   \<and> awaiting (attempt LoadState (Queue_new 2 100)) = [LoadState]"
  using attempt_runs_or_drops [of "queue (exec [HomeKitSet True 1, TickTimer] SwitchAccessory_new)"
      LoadState "exec [HomeKitSet True 1, TickTimer] SwitchAccessory_new" "[]"]
    attempt_runs_or_drops [of "Queue_new 2 100" LoadState SwitchAccessory_new "[]"]
  by (simp add: SwitchAccessory_new_def accessory_with_def Queue_new_def run_def iteration_def
      attempt_def setOnCharacteristicHandler_def loadState_def immediate_def device_calls_def)

section \<open>The set path\<close>

text \<open>
  Claim C7. When the request of a running set task resolves, whatever the body of the
  response, the cache becomes the requested value, the set callback is called with
  null and nothing is logged as an error; the resulting state does not depend on the
  body. Only when the request is rejected is the callback called with an error, and
  then the cache is unchanged.
\<close>

theorem set_succeeds_on_every_response:
  "i < length (awaiting (queue a)) \<and> awaiting (queue a) ! i = SetOn v c \<longrightarrow>
     state (step (HttpDone i (Inr body)) a) = Some v
     \<and> callbacks (step (HttpDone i (Inr body)) a) = callbacks a @ [(c, None)]
     \<and> errors (queue (step (HttpDone i (Inr body)) a)) = errors (queue a)
     \<and> step (HttpDone i (Inr body)) a = step (HttpDone i (Inr body')) a
     \<and> state (step (HttpDone i (Inl e)) a) = state a
     \<and> callbacks (step (HttpDone i (Inl e)) a) = callbacks a @ [(c, Some e)]"
  by (simp add: step_set_ok step_set_failed run_resumed_def del: step.simps)

theorem set_succeeds_on_every_response_witness:
  "awaiting (queue (exec [HomeKitSet True 1, TickTimer] SwitchAccessory_new)) ! 0 = SetOn True 1
   \<and> state (exec [HomeKitSet True 1, TickTimer, HttpDone 0 (Inr (JObj [(''error'', JNum 400)]))]
        SwitchAccessory_new) = Some True
   \<and> callbacks (exec [HomeKitSet True 1, TickTimer, HttpDone 0 (Inr (JObj [(''error'', JNum 400)]))]
        SwitchAccessory_new) = [(1, None)]
   \<and> errors (queue (exec [HomeKitSet True 1, TickTimer, HttpDone 0 (Inr (JObj [(''error'', JNum 400)]))]
        SwitchAccessory_new)) = []"
  using set_succeeds_on_every_response [of 0 "exec [HomeKitSet True 1, TickTimer] SwitchAccessory_new"
      True 1 "JObj [(''error'', JNum 400)]" JNull "NetworkError ''timeout''"]
  by (simp add: SwitchAccessory_new_def accessory_with_def Queue_new_def run_def iteration_def
      setOnCharacteristicHandler_def immediate_def run_resumed_def)

section \<open>The poll path\<close>

lemma getOn_info: "getOn (Inr (info sw)) = Inr (sw = ''on'')"
  by (simp add: getOn_def getOn_then_def info_def)

lemmas scenario_defs =
  poll_cycle_def SwitchAccessory_new_def accessory_with_def Queue_new_def
  setOnCharacteristicHandler_def loadState_def immediate_def attempt_def iteration_def run_def
  run_resumed_def timeout_fired_def getOn_info

text \<open>
  Claim C5. When \<open>getOn\<close> succeeds with \<open>b\<close> in a running poll task: if the cache
  holds \<open>b\<close>, cache and notifications are unchanged; otherwise the cache becomes
  \<open>b\<close> and exactly one notification, carrying \<open>b\<close>, is added. With the cache at on
  and three poll cycles answering on, on, off, no notification is raised by the first
  two cycles and exactly one, with value false, by the third.
\<close>

theorem poll_notifies_on_change_only:
  "(i < length (awaiting (queue a)) \<and> awaiting (queue a) ! i = LoadState \<and> getOn r = Inr b \<longrightarrow>
      (state a = Some b \<longrightarrow>
         state (step (HttpDone i r) a) = state a \<and> updates (step (HttpDone i r) a) = updates a)
      \<and> (state a \<noteq> Some b \<longrightarrow>
           state (step (HttpDone i r) a) = Some b
           \<and> updates (step (HttpDone i r) a) = updates a @ [b]))
   \<and> updates (exec (poll_cycle (Inr (info ''on''))) (SwitchAccessory_new\<lparr>state := Some True\<rparr>)) = []
   \<and> updates (exec (poll_cycle (Inr (info ''on'')) @ poll_cycle (Inr (info ''on'')))
        (SwitchAccessory_new\<lparr>state := Some True\<rparr>)) = []
   \<and> updates (exec (poll_cycle (Inr (info ''on'')) @ poll_cycle (Inr (info ''on''))
          @ poll_cycle (Inr (info ''off''))) (SwitchAccessory_new\<lparr>state := Some True\<rparr>)) = [False]
   \<and> state (exec (poll_cycle (Inr (info ''on'')) @ poll_cycle (Inr (info ''on''))
          @ poll_cycle (Inr (info ''off''))) (SwitchAccessory_new\<lparr>state := Some True\<rparr>)) = Some False"
proof (intro conjI impI)
  show "updates (exec (poll_cycle (Inr (info ''on''))) (SwitchAccessory_new\<lparr>state := Some True\<rparr>)) = []"
    by (simp add: scenario_defs)
  show "updates (exec (poll_cycle (Inr (info ''on'')) @ poll_cycle (Inr (info ''on'')))
        (SwitchAccessory_new\<lparr>state := Some True\<rparr>)) = []"
    by (simp add: scenario_defs)
  show "updates (exec (poll_cycle (Inr (info ''on'')) @ poll_cycle (Inr (info ''on''))
          @ poll_cycle (Inr (info ''off''))) (SwitchAccessory_new\<lparr>state := Some True\<rparr>)) = [False]"
    by (simp add: scenario_defs)
  show "state (exec (poll_cycle (Inr (info ''on'')) @ poll_cycle (Inr (info ''on''))
          @ poll_cycle (Inr (info ''off''))) (SwitchAccessory_new\<lparr>state := Some True\<rparr>)) = Some False"
    by (simp add: scenario_defs)
qed (simp_all add: step_poll_same step_poll_changed del: step.simps)

theorem poll_notifies_on_change_only_witness:
  "awaiting (queue (exec [PollTimer] SwitchAccessory_new)) ! 0 = LoadState
   \<and> state (exec [PollTimer, HttpDone 0 (Inr (info ''off''))] SwitchAccessory_new) = Some False
   \<and> updates (exec [PollTimer, HttpDone 0 (Inr (info ''off''))] SwitchAccessory_new) = [False]
   \<and> updates (exec [PollTimer, HttpDone 0 (Inr (info ''on''))] (SwitchAccessory_new\<lparr>state := Some True\<rparr>)) = []"
  using poll_notifies_on_change_only [of 0 "exec [PollTimer] SwitchAccessory_new" "Inr (info ''off'')" False]
    poll_notifies_on_change_only [of 0 "exec [PollTimer] (SwitchAccessory_new\<lparr>state := Some True\<rparr>)" "Inr (info ''on'')" True]
  by (simp add: SwitchAccessory_new_def accessory_with_def Queue_new_def run_def
      attempt_def loadState_def getOn_info run_resumed_def)

section \<open>The cooldown\<close>

lemma cooling_returns_ready:
  assumes "qinv w q" "inProgress q" "awaiting q = []"
  shows "\<exists>due. timeouts q = [due]
           \<and> \<not> inProgress (timeout_fired 0 (q\<lparr>clock := clock q + (due - clock q)\<rparr>))"
proof -
  from assms have "length (timeouts q) = 1" by (simp add: qinv_def)
  then obtain due where d: "timeouts q = [due]"
    by (cases "timeouts q") auto
  have "due \<le> clock q + (due - clock q)" by arith
  with d have "\<not> inProgress (timeout_fired 0 (q\<lparr>clock := clock q + (due - clock q)\<rparr>))"
    by (simp add: timeout_fired_def)
  with d show ?thesis by simp
qed

text \<open>
  Claim C3. When a running task completes, fulfilled or rejected, the flag stays as it
  is and one timer is registered, due \<open>wait\<close> after the completion; a timer that is not
  due does nothing. In every state the accessory reaches from construction with cooldown
  \<open>w\<close>: the flag is set while a task is running or a timer is pending; if the flag is
  clear, every recorded end of a task lies at least \<open>w\<close> back; every start of a task
  comes at least \<open>w\<close> after every end recorded before it; and when the queue is busy
  with no task running, exactly one timer is pending, and once its due time has come
  its firing clears the flag.
\<close>

theorem cooldown_follows_every_task:
  "(i < length (awaiting q) \<longrightarrow>
      inProgress (run_resumed i outcome q) = inProgress q
      \<and> timeouts (run_resumed i outcome q) = timeouts q @ [clock q + wait q])
   \<and> (k < length (timeouts q) \<and> clock q < timeouts q ! k \<longrightarrow> timeout_fired k q = q)
   \<and> (awaiting (queue (exec es (accessory_with f w))) \<noteq> []
        \<or> timeouts (queue (exec es (accessory_with f w))) \<noteq> []
        \<longrightarrow> inProgress (queue (exec es (accessory_with f w))))
   \<and> ((e, Ended c) \<in> set (journal (queue (exec es (accessory_with f w))))
        \<and> \<not> inProgress (queue (exec es (accessory_with f w)))
        \<longrightarrow> e + w \<le> clock (queue (exec es (accessory_with f w))))
   \<and> (m < n \<and> n < length (journal (queue (exec es (accessory_with f w))))
        \<and> journal (queue (exec es (accessory_with f w))) ! m = (e, Ended c)
        \<and> journal (queue (exec es (accessory_with f w))) ! n = (t, Started d)
        \<longrightarrow> e + w \<le> t)
   \<and> (inProgress (queue (exec es (accessory_with f w)))
        \<and> awaiting (queue (exec es (accessory_with f w))) = []
        \<longrightarrow> (\<exists>due. timeouts (queue (exec es (accessory_with f w))) = [due]
              \<and> \<not> inProgress (queue (exec
                    (es @ [Elapse (due - clock (queue (exec es (accessory_with f w)))),
                           CooldownTimer 0])
                    (accessory_with f w)))))"
proof -
  define Q where "Q = queue (exec es (accessory_with f w))"
  have inv: "qinv w Q"
    unfolding Q_def by (rule qinv_reachable)
  have 1: "i < length (awaiting q) \<longrightarrow>
      inProgress (run_resumed i outcome q) = inProgress q
      \<and> timeouts (run_resumed i outcome q) = timeouts q @ [clock q + wait q]"
    by (cases outcome) (simp_all add: run_resumed_def)
  have 2: "k < length (timeouts q) \<and> clock q < timeouts q ! k \<longrightarrow> timeout_fired k q = q"
    by (simp add: timeout_fired_def)
  from inv have n: "length (awaiting Q) + length (timeouts Q) = (if inProgress Q then 1 else 0)"
    by (simp add: qinv_def)
  have 3: "awaiting Q \<noteq> [] \<or> timeouts Q \<noteq> [] \<longrightarrow> inProgress Q"
    using n by (auto split: if_splits)
  have 4: "(e, Ended c) \<in> set (journal Q) \<and> \<not> inProgress Q \<longrightarrow> e + w \<le> clock Q"
  proof
    assume h: "(e, Ended c) \<in> set (journal Q) \<and> \<not> inProgress Q"
    with n have "timeouts Q = []" by simp
    with h inv show "e + w \<le> clock Q"
      unfolding qinv_def by blast
  qed
  have 5: "m < n \<and> n < length (journal Q) \<and> journal Q ! m = (e, Ended c)
        \<and> journal Q ! n = (t, Started d) \<longrightarrow> e + w \<le> t"
    using inv spacedD [of w "journal Q" m n e c t d] by (auto simp: qinv_def)
  have 6: "inProgress Q \<and> awaiting Q = [] \<longrightarrow>
      (\<exists>due. timeouts Q = [due]
         \<and> \<not> inProgress (queue (exec (es @ [Elapse (due - clock Q), CooldownTimer 0])
                (accessory_with f w))))"
  proof
    assume h: "inProgress Q \<and> awaiting Q = []"
    then obtain due where d: "timeouts Q = [due]"
      and r: "\<not> inProgress (timeout_fired 0 (Q\<lparr>clock := clock Q + (due - clock Q)\<rparr>))"
      using cooling_returns_ready [OF inv] by blast
    have "queue (exec (es @ [Elapse (due - clock Q), CooldownTimer 0]) (accessory_with f w))
        = timeout_fired 0 (Q\<lparr>clock := clock Q + (due - clock Q)\<rparr>)"
      by (simp add: exec_append Q_def)
    with d r show "\<exists>due. timeouts Q = [due]
         \<and> \<not> inProgress (queue (exec (es @ [Elapse (due - clock Q), CooldownTimer 0])
                (accessory_with f w)))"
      by simp
  qed
  show ?thesis
    using 1 2 3 4 5 6 unfolding Q_def by blast
qed

theorem cooldown_follows_every_task_witness:
  "journal (queue (exec [HomeKitSet True 1, Elapse 500, TickTimer, Elapse 50, HttpDone 0 (Inr JNull),
        HomeKitSet False 2, Elapse 100, CooldownTimer 0, Elapse 350, TickTimer]
        (accessory_with 2 100)))
     = [(500, Started (SetOn True 1)), (550, Ended (SetOn True 1)), (1000, Started (SetOn False 2))]
   \<and> \<not> inProgress (queue (exec [PollTimer, Elapse 30, HttpDone 0 (Inl (NetworkError ''EHOSTUNREACH'')),
        Elapse 100, CooldownTimer 0] (accessory_with 2 100)))
   \<and> journal (queue (exec [PollTimer, Elapse 30, HttpDone 0 (Inl (NetworkError ''EHOSTUNREACH'')),
        Elapse 100, CooldownTimer 0] (accessory_with 2 100)))
     = [(0, Started LoadState), (30, Ended LoadState)]
   \<and> clock (queue (exec [PollTimer, Elapse 30, HttpDone 0 (Inl (NetworkError ''EHOSTUNREACH'')),
        Elapse 100, CooldownTimer 0] (accessory_with 2 100))) = 130
   \<and> timeouts (queue (exec [PollTimer, Elapse 30, HttpDone 0 (Inl (NetworkError ''EHOSTUNREACH''))]
        (accessory_with 2 100))) = [130]
   \<and> inProgress (queue (exec [PollTimer, Elapse 30, HttpDone 0 (Inl (NetworkError ''EHOSTUNREACH'')),
        Elapse 99, CooldownTimer 0] (accessory_with 2 100)))"
  using cooldown_follows_every_task [of 0 "queue (exec [PollTimer, Elapse 30] (accessory_with 2 100))"
      "Some (NetworkError ''EHOSTUNREACH'')" 0
      "[HomeKitSet True 1, Elapse 500, TickTimer, Elapse 50, HttpDone 0 (Inr JNull),
        HomeKitSet False 2, Elapse 100, CooldownTimer 0, Elapse 350, TickTimer]" 2 100
      550 "SetOn True 1" 1 2 1000 "SetOn False 2"]
    cooldown_follows_every_task [of 0 "queue (exec [PollTimer, Elapse 30, HttpDone 0 (Inl (NetworkError ''EHOSTUNREACH'')), Elapse 99] (accessory_with 2 100))"
      None 0
      "[PollTimer, Elapse 30, HttpDone 0 (Inl (NetworkError ''EHOSTUNREACH'')), Elapse 100, CooldownTimer 0]" 2 100
      30 LoadState 0 1 0 LoadState]
    cooldown_follows_every_task [of 0 "Queue_new 2 100" None 0
      "[PollTimer, Elapse 30, HttpDone 0 (Inl (NetworkError ''EHOSTUNREACH''))]" 2 100]
  by (simp add: scenario_defs getOn_def)

section \<open>The Queued lane\<close>

lemma requests_step: "length (requests (queue (step ev a))) \<le> length (requests (queue a))"
proof (cases ev)
  case (HttpDone i r)
  show ?thesis
  proof (cases "i < length (awaiting (queue a))")
    case False
    with HttpDone show ?thesis by simp
  next
    case True
    obtain a' outcome where s: "settled (awaiting (queue a) ! i) r a = (a', outcome)"
      by (cases "settled (awaiting (queue a) ! i) r a")
    then have "queue a' = queue a" using queue_settled [of "awaiting (queue a) ! i" r a] by simp
    with HttpDone True s show ?thesis
      by (cases outcome) (simp_all add: run_resumed_def)
  qed
qed (simp_all add: setOnCharacteristicHandler_def loadState_def immediate_def attempt_def
       iteration_def timeout_fired_def run_def)

text \<open>
  Claim C9. In every state the accessory reaches from construction the lane
  \<open>requests\<close> is empty; no event makes it longer, in any state; and so a tick never
  takes the branch of the Queued lane: it only ever starts the front of the Immediate
  lane.
\<close>

theorem queued_lane_stays_empty:
  "requests (queue (exec es (accessory_with f w))) = []
   \<and> length (requests (queue (step ev a))) \<le> length (requests (queue a))
   \<and> iteration (queue (exec es (accessory_with f w))) =
       (if inProgress (queue (exec es (accessory_with f w)))
           \<or> immediateRequests (queue (exec es (accessory_with f w))) = []
        then queue (exec es (accessory_with f w))
        else run (hd (immediateRequests (queue (exec es (accessory_with f w)))))
               ((queue (exec es (accessory_with f w)))
                  \<lparr>immediateRequests := tl (immediateRequests (queue (exec es (accessory_with f w))))\<rparr>))"
proof -
  have "qinv w (queue (exec es (accessory_with f w)))"
    by (rule qinv_reachable)
  then have r: "requests (queue (exec es (accessory_with f w))) = []"
    by (simp add: qinv_def)
  then show ?thesis
    by (simp add: requests_step iteration_def)
qed

section \<open>The tick interval\<close>

lemma ceiling_bounds:
  assumes "0 < f"
  shows "(\<lceil>1000 / real_of_int f\<rceil> - 1) * f < 1000 \<and> 1000 \<le> \<lceil>1000 / real_of_int f\<rceil> * f"
proof -
  let ?c = "\<lceil>1000 / real_of_int f\<rceil>"
  from assms have fp: "0 < real_of_int f" by simp
  have "real_of_int ?c - 1 < 1000 / real_of_int f" by linarith
  then have "(real_of_int ?c - 1) * real_of_int f < 1000"
    using fp by (simp add: pos_less_divide_eq)
  then have "real_of_int ((?c - 1) * f) < real_of_int 1000" by simp
  then have a: "(?c - 1) * f < 1000" by (simp only: of_int_less_iff)
  have up: "1000 / real_of_int f \<le> real_of_int ?c" by linarith
  from fp have "(1000 / real_of_int f \<le> real_of_int ?c) = (1000 \<le> real_of_int ?c * real_of_int f)"
    by (rule pos_divide_le_eq)
  with up have "1000 \<le> real_of_int ?c * real_of_int f" by blast
  then have "real_of_int 1000 \<le> real_of_int (?c * f)" by simp
  then have b: "1000 \<le> ?c * f" by (simp only: of_int_le_iff)
  from a b show ?thesis by simp
qed

text \<open>
  Claim C10. The interval the constructor hands to the tick timer is
  \<open>\<lceil>1000 / frequency\<rceil>\<close> (\<open>Infinity\<close> for frequency 0); for a positive
  frequency it is the least integer \<open>T\<close> with \<open>1000 \<le> T * frequency\<close>. The accessory
  constructs its queue with frequency 2 and cooldown 100, so its tick interval is 500.
\<close>

theorem tick_interval_is_ceiling:
  "tickInterval (Queue_new f w) =
     (if f = 0 then Infinity else Finite \<lceil>1000 / real_of_int f\<rceil>)
   \<and> (0 < f \<longrightarrow> (\<exists>T. tickInterval (Queue_new f w) = Finite T
          \<and> (T - 1) * f < 1000 \<and> 1000 \<le> T * f))
   \<and> tickInterval (queue SwitchAccessory_new) = Finite 500
   \<and> wait (queue SwitchAccessory_new) = 100"
  using ceiling_bounds [of f]
  by (simp add: Queue_new_def Queue_timeout_def SwitchAccessory_new_def accessory_with_def)

theorem tick_interval_is_ceiling_witness:
  "tickInterval (Queue_new 3 100 :: task Queue) = Finite 334
   \<and> (334 - 1) * 3 < (1000::int) \<and> (1000::int) \<le> 334 * 3
   \<and> tickInterval (Queue_new 0 100 :: task Queue) = Infinity
   \<and> tickInterval (Queue_new 2 100 :: task Queue) = Finite 500"
  using tick_interval_is_ceiling [of 3 100, where ?'a = task]
    tick_interval_is_ceiling [of 0 100, where ?'a = task]
    tick_interval_is_ceiling [of 2 100, where ?'a = task]
  by (auto simp: Queue_new_def Queue_timeout_def)

end
